theory Spec2Isabelle
  imports Complex_Main "HOL-Library.AList"
begin

section \<open>Data model of the DAG builder\<close>

text \<open>
  The component keeps one value of \<^verbatim>\<open>DAGState\<close>: a list of nodes and a list of edges.
  The field names of the source are kept, with a prime where the name is taken in
  Isabelle (\<^verbatim>\<open>id\<close>, \<^verbatim>\<open>from\<close>, \<^verbatim>\<open>to\<close>); the coordinates \<^verbatim>\<open>x\<close> and \<^verbatim>\<open>y\<close> are the fields
  \<open>x_coord\<close> and \<open>y_coord\<close>. Coordinates are JavaScript numbers; they are payload only and
  are modelled as reals.
\<close>

record Node =
  id' :: string
  label :: string
  x_coord :: real
  y_coord :: real

record Edge =
  from' :: string
  to' :: string

record DAGState =
  nodes :: "Node list"
  edges :: "Edge list"

definition initialState :: DAGState where
  "initialState = \<lparr>nodes = [], edges = []\<rparr>"

text \<open>
  An operation reports to the user through \<^verbatim>\<open>setError\<close> or \<^verbatim>\<open>setSuccess\<close>, or not at all.
  The error type lists the error names of the specification. The source produces four
  of them, by these messages:
  \<^item> \<open>EmptyLabel\<close>: \<^verbatim>\<open>"Node label cannot be empty"\<close>
  \<^item> \<open>DuplicateEdge\<close>: \<^verbatim>\<open>"Edge already exists"\<close>
  \<^item> \<open>WouldCreateCycle\<close>: \<^verbatim>\<open>"Cannot add edge: would create a cycle"\<close>
  \<^item> \<open>Malformed\<close>: \<^verbatim>\<open>"Invalid file format"\<close>

  No statement of the source reports \<open>NotFound\<close>, \<open>UnknownNode\<close> or \<open>SelfLoop\<close>.
  Every operation below returns what it reports together with the state it leaves.
\<close>

datatype error =
  EmptyLabel | NotFound | UnknownNode | SelfLoop | DuplicateEdge | WouldCreateCycle | Malformed

datatype feedback = Error error | Success | Quiet

section \<open>The cycle check\<close>

text \<open>
  \<^verbatim>\<open>adjacencyList\<close> is a JavaScript \<^verbatim>\<open>Map\<close> from node id to an array of successor ids:
  an association list, where \<open>AList.update\<close> is \<^verbatim>\<open>Map.set\<close> and \<open>map_of\<close> is \<^verbatim>\<open>Map.get\<close>.
  \<open>push\<close> is \<^verbatim>\<open>adjacencyList.get(k)?.push(v)\<close>: nothing happens when the key is absent.
\<close>

type_synonym adjacency = "(string \<times> string list) list"

definition push :: "adjacency \<Rightarrow> string \<Rightarrow> string \<Rightarrow> adjacency" where
  "push adj k v = (case map_of adj k of None \<Rightarrow> adj | Some ns \<Rightarrow> AList.update k (ns @ [v]) adj)"

definition adjacencyList :: "DAGState \<Rightarrow> string \<Rightarrow> string \<Rightarrow> adjacency" where
  "adjacencyList s f t =
     (let a0 = fold (\<lambda>node adj. AList.update (id' node) [] adj) (nodes s) [];
          a1 = fold (\<lambda>edge adj. push adj (from' edge) (to' edge)) (edges s) a0
      in push a1 f t)"

text \<open>\<^verbatim>\<open>adjacencyList.get(nodeId) || []\<close>\<close>

definition neighbors :: "adjacency \<Rightarrow> string \<Rightarrow> string list" where
  "neighbors adj nodeId = (case map_of adj nodeId of None \<Rightarrow> [] | Some ns \<Rightarrow> ns)"

text \<open>
  \<^verbatim>\<open>hasCycle\<close> is the recursive closure of the source; \<open>hasCycle_loop\<close> is its \<^verbatim>\<open>for\<close> loop over
  the neighbours. The two sets \<^verbatim>\<open>visited\<close> and \<^verbatim>\<open>recStack\<close>, which the source mutates,
  are passed in and returned. Where the source returns \<^verbatim>\<open>true\<close> it leaves \<^verbatim>\<open>recStack\<close> as
  it is, and so does the model.
\<close>

function hasCycle ::
    "adjacency \<Rightarrow> string \<Rightarrow> string set \<Rightarrow> string set \<Rightarrow> bool \<times> string set \<times> string set"
  and hasCycle_loop ::
    "adjacency \<Rightarrow> string list \<Rightarrow> string set \<Rightarrow> string set \<Rightarrow> bool \<times> string set \<times> string set"
where
  "hasCycle adj nodeId visited recStack =
     (case hasCycle_loop adj (neighbors adj nodeId) (insert nodeId visited) (insert nodeId recStack) of
        (True, visited', recStack') \<Rightarrow> (True, visited', recStack')
      | (False, visited', recStack') \<Rightarrow> (False, visited', recStack' - {nodeId}))"
| "hasCycle_loop adj [] visited recStack = (False, visited, recStack)"
| "hasCycle_loop adj (neighbor # rest) visited recStack =
     (if neighbor \<notin> visited then
        (case hasCycle adj neighbor visited recStack of
           (True, visited', recStack') \<Rightarrow> (True, visited', recStack')
         | (False, visited', recStack') \<Rightarrow> hasCycle_loop adj rest visited' recStack')
      else if neighbor \<in> recStack then (True, visited, recStack)
      else hasCycle_loop adj rest visited recStack)"
  by pat_completeness auto

definition wouldCreateCycle :: "DAGState \<Rightarrow> string \<Rightarrow> string \<Rightarrow> bool" where
  "wouldCreateCycle s f t =
     (if f = t then True else fst (hasCycle (adjacencyList s f t) f {} {}))"

section \<open>The operations on the graph\<close>

text \<open>
  \<^verbatim>\<open>String.prototype.trim\<close> removes white space and line terminators at both ends. On
  8-bit characters these are TAB, LF, VT, FF, CR, SPACE and NBSP.
\<close>

definition isWhiteSpace :: "char \<Rightarrow> bool" where
  "isWhiteSpace c = ((of_char c :: nat) \<in> {9, 10, 11, 12, 13, 32, 160})"

definition trim :: "string \<Rightarrow> string" where
  "trim str = rev (dropWhile isWhiteSpace (rev (dropWhile isWhiteSpace str)))"

text \<open>The decimal numeral of a number, as the template literal prints \<^verbatim>\<open>Date.now()\<close>.\<close>

fun decimal :: "nat \<Rightarrow> string" where
  "decimal n =
     (if n < 10 then [''0123456789'' ! n]
      else decimal (n div 10) @ [''0123456789'' ! (n mod 10)])"

declare decimal.simps [simp del]

text \<open>
  \<^verbatim>\<open>addNode\<close> reads the label from the input field, the clock and two random numbers;
  they are the parameters \<open>newNodeLabel\<close>, \<open>now\<close>, \<open>r1\<close> and \<open>r2\<close>.
\<close>

definition addNode :: "string \<Rightarrow> nat \<Rightarrow> real \<Rightarrow> real \<Rightarrow> DAGState \<Rightarrow> feedback \<times> DAGState" where
  "addNode newNodeLabel now r1 r2 s =
     (if trim newNodeLabel = [] then (Error EmptyLabel, s)
      else
        let newNode = \<lparr>id' = ''node-'' @ decimal now, label = trim newNodeLabel,
                       x_coord = r1 * 400 + 100, y_coord = r2 * 300 + 100\<rparr>
        in (Success, s\<lparr>nodes := nodes s @ [newNode]\<rparr>))"

definition deleteNode :: "string \<Rightarrow> DAGState \<Rightarrow> feedback \<times> DAGState" where
  "deleteNode nodeId s =
     (Quiet, \<lparr>nodes = filter (\<lambda>n. id' n \<noteq> nodeId) (nodes s),
              edges = filter (\<lambda>e. from' e \<noteq> nodeId \<and> to' e \<noteq> nodeId) (edges s)\<rparr>)"

definition addEdge :: "string \<Rightarrow> string \<Rightarrow> DAGState \<Rightarrow> feedback \<times> DAGState" where
  "addEdge f t s =
     (if list_ex (\<lambda>e. from' e = f \<and> to' e = t) (edges s) then (Error DuplicateEdge, s)
      else if wouldCreateCycle s f t then (Error WouldCreateCycle, s)
      else (Success, s\<lparr>edges := edges s @ [\<lparr>from' = f, to' = t\<rparr>]\<rparr>))"

definition deleteEdge :: "string \<Rightarrow> string \<Rightarrow> DAGState \<Rightarrow> feedback \<times> DAGState" where
  "deleteEdge f t s =
     (Quiet, s\<lparr>edges := filter (\<lambda>e. \<not> (from' e = f \<and> to' e = t)) (edges s)\<rparr>)"

definition clearGraph :: "DAGState \<Rightarrow> feedback \<times> DAGState" where
  "clearGraph s = (Quiet, \<lparr>nodes = [], edges = []\<rparr>)"

text \<open>
  \<^verbatim>\<open>importGraph\<close> reads the chosen file and hands its text to \<^verbatim>\<open>JSON.parse\<close>, which belongs to
  the platform. What the handler gets is the parameter: no file was chosen, the text did
  not parse (\<^verbatim>\<open>JSON.parse\<close> threw), or the document that was parsed. The parsed value is
  passed to \<^verbatim>\<open>setState\<close> as a \<^verbatim>\<open>DAGState\<close>, so documents are values of that type.
\<close>

datatype upload = NoFile | Unparsable | Parsed DAGState

definition importGraph :: "upload \<Rightarrow> DAGState \<Rightarrow> feedback \<times> DAGState" where
  "importGraph file s =
     (case file of
        NoFile \<Rightarrow> (Quiet, s)
      | Unparsable \<Rightarrow> (Error Malformed, s)
      | Parsed imported \<Rightarrow> (Success, imported))"

section \<open>Graph properties\<close>

definition node_ids :: "DAGState \<Rightarrow> string set" where
  "node_ids s = id' ` set (nodes s)"

definition edge_rel :: "DAGState \<Rightarrow> (string \<times> string) set" where
  "edge_rel s = (\<lambda>e. (from' e, to' e)) ` set (edges s)"

definition no_dangling :: "DAGState \<Rightarrow> bool" where
  "no_dangling s = (\<forall>e \<in> set (edges s). from' e \<in> node_ids s \<and> to' e \<in> node_ids s)"

text \<open>
  The four editing operations as values, to speak about any one of them and about
  sequences of them.
\<close>

datatype intent =
  AddNode string nat real real
| DeleteNode string
| AddEdge string string
| DeleteEdge string string

fun perform :: "intent \<Rightarrow> DAGState \<Rightarrow> feedback \<times> DAGState" where
  "perform (AddNode newNodeLabel now r1 r2) s = addNode newNodeLabel now r1 r2 s"
| "perform (DeleteNode nodeId) s = deleteNode nodeId s"
| "perform (AddEdge f t) s = addEdge f t s"
| "perform (DeleteEdge f t) s = deleteEdge f t s"

text \<open>
  An intent is well addressed when the endpoints of an \<^verbatim>\<open>addEdge\<close> name existing nodes, as
  they do when the click handler of the canvas calls it.
\<close>

fun well_addressed :: "intent \<Rightarrow> DAGState \<Rightarrow> bool" where
  "well_addressed (AddEdge f t) s = (f \<in> node_ids s \<and> t \<in> node_ids s)"
| "well_addressed _ s = True"

fun run :: "intent list \<Rightarrow> DAGState \<Rightarrow> DAGState" where
  "run [] s = s"
| "run (i # is) s = run is (snd (perform i s))"

text \<open>Every state that a sequence of intents passes through, and every report it gives.\<close>

fun trace :: "intent list \<Rightarrow> DAGState \<Rightarrow> DAGState list" where
  "trace [] s = [s]"
| "trace (i # is) s = s # trace is (snd (perform i s))"

fun outcomes :: "intent list \<Rightarrow> DAGState \<Rightarrow> feedback list" where
  "outcomes [] s = []"
| "outcomes (i # is) s = fst (perform i s) # outcomes is (snd (perform i s))"

fun all_well_addressed :: "intent list \<Rightarrow> DAGState \<Rightarrow> bool" where
  "all_well_addressed [] s = True"
| "all_well_addressed (i # is) s = (well_addressed i s \<and> all_well_addressed is (snd (perform i s)))"

text \<open>The invariant of the store: no dangling edge and no cycle.\<close>

definition dag_inv :: "DAGState \<Rightarrow> bool" where
  "dag_inv s \<longleftrightarrow> no_dangling s \<and> acyclic (edge_rel s)"

text \<open>The graph of the specification's examples: nodes A, B and C with edges A to B and B to C.\<close>

definition nodeA :: Node where
  "nodeA = \<lparr>id' = ''A'', label = ''first'', x_coord = 120, y_coord = 150\<rparr>"

definition nodeB :: Node where
  "nodeB = \<lparr>id' = ''B'', label = ''second'', x_coord = 260, y_coord = 150\<rparr>"

definition nodeC :: Node where
  "nodeC = \<lparr>id' = ''C'', label = ''third'', x_coord = 400, y_coord = 150\<rparr>"

definition chainABC :: DAGState where
  "chainABC = \<lparr>nodes = [nodeA, nodeB, nodeC],
                edges = [\<lparr>from' = ''A'', to' = ''B''\<rparr>, \<lparr>from' = ''B'', to' = ''C''\<rparr>]\<rparr>"

section \<open>The graph that the search walks\<close>

text \<open>
  The edges of an adjacency list, and the invariant of the search: the nodes that are
  visited and no longer on the recursion stack are finished, which means that the edges
  lead from finished nodes to finished nodes only and that no finished node lies on a cycle.
\<close>

definition adj_rel :: "adjacency \<Rightarrow> (string \<times> string) set" where
  "adj_rel adj = {(n, m). m \<in> set (neighbors adj n)}"

definition finished :: "adjacency \<Rightarrow> string set \<Rightarrow> bool" where
  "finished adj B \<longleftrightarrow>
     (\<forall>x \<in> B. \<forall>y. (x, y) \<in> adj_rel adj \<longrightarrow> y \<in> B) \<and> (\<forall>x \<in> B. (x, x) \<notin> (adj_rel adj)\<^sup>+)"

definition dfs_inv :: "adjacency \<Rightarrow> string set \<Rightarrow> string set \<Rightarrow> bool" where
  "dfs_inv adj visited recStack \<longleftrightarrow> recStack \<subseteq> visited \<and> finished adj (visited - recStack)"

definition dfs_post :: "adjacency \<Rightarrow> string set \<Rightarrow> string set \<Rightarrow> string set
    \<Rightarrow> bool \<times> string set \<times> string set \<Rightarrow> bool" where
  "dfs_post adj visited recStack done res =
     (case res of (b, visited', recStack') \<Rightarrow>
        if b then \<exists>x. (x, x) \<in> (adj_rel adj)\<^sup>+
        else visited \<subseteq> visited' \<and> recStack' = recStack \<and> dfs_inv adj visited' recStack'
             \<and> done \<subseteq> visited' - recStack')"

section \<open>Termination of the cycle check\<close>

definition targets :: "adjacency \<Rightarrow> string set" where
  "targets adj = (\<Union>entry \<in> set adj. set (snd entry))"

definition dfs_measure ::
  "(adjacency \<times> string \<times> string set \<times> string set) + (adjacency \<times> string list \<times> string set \<times> string set)
     \<Rightarrow> nat \<times> nat" where
  "dfs_measure c = (case c of
      Inl (adj, nodeId, visited, recStack) \<Rightarrow>
        (card (targets adj - insert nodeId visited), Suc (length (neighbors adj nodeId)))
    | Inr (adj, pending, visited, recStack) \<Rightarrow>
        (card ((targets adj \<union> set pending) - visited), length pending))"

lemma finite_targets: "finite (targets adj)"
  by (simp add: targets_def)

lemma neighbors_targets: "set (neighbors adj nodeId) \<subseteq> targets adj"
proof (cases "map_of adj nodeId")
  case None
  then show ?thesis by (simp add: neighbors_def)
next
  case (Some ns)
  then have "(nodeId, ns) \<in> set adj" by (rule map_of_SomeD)
  then show ?thesis using Some by (force simp: neighbors_def targets_def)
qed

text \<open>Wherever the search returns, it has forgotten no visited node.\<close>

lemma hasCycle_visited_mono_dom:
  "hasCycle_hasCycle_loop_dom (Inl (adj, nodeId, visited, recStack)) \<Longrightarrow>
     visited \<subseteq> fst (snd (hasCycle adj nodeId visited recStack))"
  "hasCycle_hasCycle_loop_dom (Inr (adj, pending, visited, recStack)) \<Longrightarrow>
     visited \<subseteq> fst (snd (hasCycle_loop adj pending visited recStack))"
proof (induction adj nodeId visited recStack and adj pending visited recStack
       rule: hasCycle_hasCycle_loop.pinduct)
  case (1 adj nodeId visited recStack)
  then show ?case
    by (auto simp: hasCycle.psimps split: prod.splits bool.splits)
next
  case (2 adj visited recStack)
  then show ?case by (simp add: hasCycle_loop.psimps)
next
  case (3 adj neighbor rest visited recStack)
  note dom = "3.hyps"
  show ?case
  proof (cases "neighbor \<in> visited")
    case True
    then show ?thesis
      using "3.IH"(3) dom by (cases "neighbor \<in> recStack") (simp_all add: hasCycle_loop.psimps)
  next
    case False
    obtain b v r where res: "hasCycle adj neighbor visited recStack = (b, v, r)"
      by (cases "hasCycle adj neighbor visited recStack") auto
    from "3.IH"(1)[OF False] res have sub: "visited \<subseteq> v" by simp
    show ?thesis
    proof (cases b)
      case True
      then show ?thesis using False res sub dom by (simp add: hasCycle_loop.psimps)
    next
      case nb: False
      from "3.IH"(2)[OF False, of b "(v, r)" v r] res nb
      have "v \<subseteq> fst (snd (hasCycle_loop adj rest v r))" by simp
      then show ?thesis using False res sub dom nb by (auto simp add: hasCycle_loop.psimps)
    qed
  qed
qed

termination hasCycle
proof (relation "inv_image (less_than <*lex*> less_than) dfs_measure")
  show "wf (inv_image (less_than <*lex*> less_than) dfs_measure)"
    by (intro wf_inv_image wf_lex_prod wf_less_than)
next
  fix adj nodeId and visited recStack :: "string set"
  have "targets adj \<union> set (neighbors adj nodeId) = targets adj"
    using neighbors_targets[of adj nodeId] by auto
  then show "(Inr (adj, neighbors adj nodeId, insert nodeId visited, insert nodeId recStack),
         Inl (adj, nodeId, visited, recStack))
        \<in> inv_image (less_than <*lex*> less_than) dfs_measure"
    by (simp add: dfs_measure_def)
next
  fix adj neighbor rest and visited recStack :: "string set"
  assume "neighbor \<notin> visited"
  then have "targets adj - insert neighbor visited \<subset> (targets adj \<union> set (neighbor # rest)) - visited"
    by auto
  then have "card (targets adj - insert neighbor visited)
      < card ((targets adj \<union> set (neighbor # rest)) - visited)"
    by (intro psubset_card_mono) (simp_all add: finite_targets)
  then show "(Inl (adj, neighbor, visited, recStack), Inr (adj, neighbor # rest, visited, recStack))
        \<in> inv_image (less_than <*lex*> less_than) dfs_measure"
    by (simp add: dfs_measure_def)
next
  fix adj neighbor rest and visited recStack :: "string set" and x y xa ya
  assume "neighbor \<notin> visited"
    and r: "(x, y) = hasCycle adj neighbor visited recStack" "(xa, ya) = y"
    and d: "hasCycle_hasCycle_loop_dom (Inl (adj, neighbor, visited, recStack))"
  from hasCycle_visited_mono_dom(1)[OF d] r have "visited \<subseteq> xa"
    by (metis fst_conv snd_conv)
  then have "(targets adj \<union> set rest) - xa \<subseteq> (targets adj \<union> set (neighbor # rest)) - visited"
    by auto
  then have "card ((targets adj \<union> set rest) - xa)
      \<le> card ((targets adj \<union> set (neighbor # rest)) - visited)"
    by (intro card_mono) (simp_all add: finite_targets)
  then show "(Inr (adj, rest, xa, ya), Inr (adj, neighbor # rest, visited, recStack))
        \<in> inv_image (less_than <*lex*> less_than) dfs_measure"
    by (auto simp: dfs_measure_def)
next
  fix adj neighbor rest and visited recStack :: "string set"
  have "(targets adj \<union> set rest) - visited \<subseteq> (targets adj \<union> set (neighbor # rest)) - visited"
    by auto
  then have "card ((targets adj \<union> set rest) - visited)
      \<le> card ((targets adj \<union> set (neighbor # rest)) - visited)"
    by (intro card_mono) (simp_all add: finite_targets)
  then show "(Inr (adj, rest, visited, recStack), Inr (adj, neighbor # rest, visited, recStack))
        \<in> inv_image (less_than <*lex*> less_than) dfs_measure"
    by (auto simp: dfs_measure_def)
qed

section \<open>Correctness of the search\<close>

lemma finished_rtrancl:
  assumes "finished adj B" and "(x, y) \<in> (adj_rel adj)\<^sup>*" and "x \<in> B"
  shows "y \<in> B"
  using assms(2,3,1) by (induction rule: rtrancl_induct) (auto simp: finished_def)

lemma finished_insert:
  assumes fin: "finished adj B" and nb: "set (neighbors adj n) \<subseteq> B" and n: "n \<notin> B"
  shows "finished adj (insert n B)"
proof -
  have closed: "\<forall>x \<in> insert n B. \<forall>y. (x, y) \<in> adj_rel adj \<longrightarrow> y \<in> insert n B"
    using fin nb by (auto simp: finished_def adj_rel_def)
  have "(n, n) \<notin> (adj_rel adj)\<^sup>+"
  proof
    assume "(n, n) \<in> (adj_rel adj)\<^sup>+"
    then obtain y where y: "(n, y) \<in> adj_rel adj" "(y, n) \<in> (adj_rel adj)\<^sup>*"
      by (meson tranclD)
    from y(1) nb have "y \<in> B" by (auto simp: adj_rel_def)
    with finished_rtrancl[OF fin y(2)] n show False by simp
  qed
  with fin closed show ?thesis by (auto simp: finished_def)
qed

lemma hasCycle_correct:
  "dfs_inv adj visited recStack \<Longrightarrow> nodeId \<notin> visited \<Longrightarrow>
     (\<forall>g \<in> recStack. (g, nodeId) \<in> (adj_rel adj)\<^sup>+) \<Longrightarrow>
     dfs_post adj visited recStack {nodeId} (hasCycle adj nodeId visited recStack)"
  "dfs_inv adj visited recStack \<Longrightarrow>
     (\<forall>g \<in> recStack. \<forall>m \<in> set pending. (g, m) \<in> (adj_rel adj)\<^sup>+) \<Longrightarrow>
     dfs_post adj visited recStack (set pending) (hasCycle_loop adj pending visited recStack)"
proof (induction adj nodeId visited recStack and adj pending visited recStack
       rule: hasCycle_hasCycle_loop.induct)
  case (1 adj nodeId visited recStack)
  let ?E = "adj_rel adj"
  let ?V1 = "insert nodeId visited" and ?R1 = "insert nodeId recStack"
  have sub: "recStack \<subseteq> visited" using "1.prems"(1) by (simp add: dfs_inv_def)
  have nR: "nodeId \<notin> recStack" using sub "1.prems"(2) by auto
  have black: "?V1 - ?R1 = visited - recStack" using "1.prems"(2) by auto
  have inv1: "dfs_inv adj ?V1 ?R1"
    using "1.prems"(1) black sub by (auto simp: dfs_inv_def)
  have path1: "\<forall>g \<in> ?R1. \<forall>m \<in> set (neighbors adj nodeId). (g, m) \<in> ?E\<^sup>+"
  proof (intro ballI)
    fix g m assume g: "g \<in> ?R1" and m: "m \<in> set (neighbors adj nodeId)"
    from m have e: "(nodeId, m) \<in> ?E" by (simp add: adj_rel_def)
    show "(g, m) \<in> ?E\<^sup>+"
    proof (cases "g = nodeId")
      case True
      then show ?thesis using e by auto
    next
      case False
      with g "1.prems"(3) have "(g, nodeId) \<in> ?E\<^sup>+" by auto
      then show ?thesis using e by (rule trancl_into_trancl)
    qed
  qed
  obtain b v r where res: "hasCycle_loop adj (neighbors adj nodeId) ?V1 ?R1 = (b, v, r)"
    by (cases "hasCycle_loop adj (neighbors adj nodeId) ?V1 ?R1") auto
  from "1.IH"[OF inv1 path1] res
  have post: "dfs_post adj ?V1 ?R1 (set (neighbors adj nodeId)) (b, v, r)" by simp
  show ?case
  proof (cases b)
    case True
    then show ?thesis using post res by (simp add: dfs_post_def)
  next
    case False
    with post have "?V1 \<subseteq> v \<and> r = ?R1 \<and> dfs_inv adj v r
        \<and> set (neighbors adj nodeId) \<subseteq> v - r"
      by (auto simp: dfs_post_def)
    then have v: "?V1 \<subseteq> v" and r: "r = ?R1" and inv: "dfs_inv adj v r"
      and nb: "set (neighbors adj nodeId) \<subseteq> v - r"
      by blast+
    have eq: "v - (r - {nodeId}) = insert nodeId (v - r)"
      using v r by auto
    have "finished adj (insert nodeId (v - r))"
      using inv nb r by (intro finished_insert) (auto simp: dfs_inv_def)
    then have "dfs_inv adj v (r - {nodeId})"
      using inv eq by (auto simp: dfs_inv_def)
    moreover have "r - {nodeId} = recStack" using r nR by auto
    ultimately show ?thesis
      using False res v by (auto simp: dfs_post_def)
  qed
next
  case (2 adj visited recStack)
  then show ?case by (simp add: dfs_post_def)
next
  case (3 adj neighbor rest visited recStack)
  let ?E = "adj_rel adj"
  have pathrest: "\<forall>g \<in> recStack. \<forall>m \<in> set rest. (g, m) \<in> ?E\<^sup>+"
    using "3.prems"(2) by simp
  show ?case
  proof (cases "neighbor \<in> visited")
    case True
    show ?thesis
    proof (cases "neighbor \<in> recStack")
      case inR: True
      with "3.prems"(2) have "(neighbor, neighbor) \<in> ?E\<^sup>+" by simp
      then show ?thesis using True inR by (auto simp: dfs_post_def)
    next
      case False
      from "3.IH"(3)[OF _ False "3.prems"(1) pathrest] True
      have "dfs_post adj visited recStack (set rest) (hasCycle_loop adj rest visited recStack)"
        by simp
      then show ?thesis using True False
        by (auto simp: dfs_post_def split: prod.splits if_splits)
    qed
  next
    case False
    obtain b v r where res: "hasCycle adj neighbor visited recStack = (b, v, r)"
      by (cases "hasCycle adj neighbor visited recStack") auto
    have "\<forall>g \<in> recStack. (g, neighbor) \<in> ?E\<^sup>+" using "3.prems"(2) by simp
    from "3.IH"(1)[OF False "3.prems"(1) False this] res
    have post: "dfs_post adj visited recStack {neighbor} (b, v, r)" by simp
    show ?thesis
    proof (cases b)
      case True
      then show ?thesis using post res False by (simp add: dfs_post_def)
    next
      case nb: False
      with post have "visited \<subseteq> v \<and> r = recStack \<and> dfs_inv adj v r \<and> neighbor \<in> v - r"
        by (auto simp: dfs_post_def)
      then have v: "visited \<subseteq> v" and r: "r = recStack" and inv: "dfs_inv adj v r"
        and nbr: "neighbor \<in> v - r"
        by blast+
      from "3.IH"(2)[OF False _ _ _ inv, of b "(v, r)"] res nb pathrest r
      have "dfs_post adj v r (set rest) (hasCycle_loop adj rest v r)" by simp
      then show ?thesis using False res nb v r nbr
        by (auto simp: dfs_post_def split: prod.splits if_splits)
    qed
  qed
qed

lemma hasCycle_sound:
  assumes "fst (hasCycle adj start {} {})"
  shows "\<exists>x. (x, x) \<in> (adj_rel adj)\<^sup>+"
proof -
  have "dfs_inv adj {} {}" by (simp add: dfs_inv_def finished_def)
  then have "dfs_post adj {} {} {start} (hasCycle adj start {} {})"
    by (rule hasCycle_correct(1)) simp_all
  with assms show ?thesis
    by (auto simp: dfs_post_def split: prod.splits if_splits)
qed

lemma hasCycle_complete:
  assumes "\<not> fst (hasCycle adj start {} {})"
  shows "(start, start) \<notin> (adj_rel adj)\<^sup>+"
proof -
  have "dfs_inv adj {} {}" by (simp add: dfs_inv_def finished_def)
  then have "dfs_post adj {} {} {start} (hasCycle adj start {} {})"
    by (rule hasCycle_correct(1)) simp_all
  with assms obtain v where "dfs_inv adj v {}" and "start \<in> v"
    by (auto simp: dfs_post_def split: prod.splits if_splits)
  then show ?thesis by (simp add: dfs_inv_def finished_def)
qed

section \<open>The adjacency list of a state\<close>

lemma map_of_push:
  "map_of (push adj k v) k' =
     (case map_of adj k of None \<Rightarrow> map_of adj k'
      | Some ns \<Rightarrow> if k' = k then Some (ns @ [v]) else map_of adj k')"
  by (simp add: push_def update_conv' split: option.splits)

lemma map_of_fold_set:
  "map_of (fold (\<lambda>node adj. AList.update (id' node) [] adj) ns acc) k =
     (if k \<in> id' ` set ns then Some [] else map_of acc k)"
  by (induction ns arbitrary: acc) (auto simp: update_conv')

lemma map_of_fold_push:
  "map_of (fold (\<lambda>edge adj. push adj (from' edge) (to' edge)) es acc) k =
     (case map_of acc k of None \<Rightarrow> None
      | Some ns \<Rightarrow> Some (ns @ map to' (filter (\<lambda>e. from' e = k) es)))"
proof (induction es arbitrary: acc)
  case Nil
  then show ?case by (simp split: option.splits)
next
  case (Cons e es)
  show ?case
    by (simp add: Cons.IH map_of_push split: option.splits)
qed

lemma neighbors_adjacencyList:
  "neighbors (adjacencyList s f t) k =
     (if k \<in> node_ids s
      then map to' (filter (\<lambda>e. from' e = k) (edges s)) @ (if k = f then [t] else [])
      else [])"
  by (simp add: neighbors_def adjacencyList_def Let_def map_of_push map_of_fold_push
      map_of_fold_set node_ids_def split: option.splits)

lemma adj_rel_adjacencyList:
  "adj_rel (adjacencyList s f t) =
     {(a, b). a \<in> node_ids s \<and> ((a, b) \<in> edge_rel s \<or> (a = f \<and> b = t))}"
  by (auto simp: adj_rel_def neighbors_adjacencyList edge_rel_def)

lemma adj_rel_closed_graph:
  assumes "no_dangling s" and "f \<in> node_ids s"
  shows "adj_rel (adjacencyList s f t) = insert (f, t) (edge_rel s)"
  using assms by (auto simp: adj_rel_adjacencyList no_dangling_def edge_rel_def)

section \<open>What the cycle check decides\<close>

lemma wouldCreateCycle_iff:
  assumes acyc: "acyclic (edge_rel s)" and nd: "no_dangling s" and f: "f \<in> node_ids s"
  shows "wouldCreateCycle s f t \<longleftrightarrow> (t, f) \<in> (edge_rel s)\<^sup>*"
proof (cases "f = t")
  case True
  then show ?thesis by (simp add: wouldCreateCycle_def)
next
  case False
  let ?adj = "adjacencyList s f t"
  have rel: "adj_rel ?adj = insert (f, t) (edge_rel s)"
    using nd f by (rule adj_rel_closed_graph)
  show ?thesis
  proof
    assume "wouldCreateCycle s f t"
    with False have "fst (hasCycle ?adj f {} {})" by (simp add: wouldCreateCycle_def)
    then have "\<exists>x. (x, x) \<in> (adj_rel ?adj)\<^sup>+" by (rule hasCycle_sound)
    then have "\<not> acyclic (insert (f, t) (edge_rel s))" by (auto simp: rel acyclic_def)
    with acyc show "(t, f) \<in> (edge_rel s)\<^sup>*" by simp
  next
    assume reach: "(t, f) \<in> (edge_rel s)\<^sup>*"
    have "(f, t) \<in> adj_rel ?adj" by (simp add: rel)
    moreover from reach have "(t, f) \<in> (adj_rel ?adj)\<^sup>*"
      unfolding rel by (rule rtrancl_mono[THEN subsetD, rotated]) auto
    ultimately have "(f, f) \<in> (adj_rel ?adj)\<^sup>+" by (rule rtrancl_into_trancl2)
    then have "fst (hasCycle ?adj f {} {})" using hasCycle_complete by blast
    with False show "wouldCreateCycle s f t" by (simp add: wouldCreateCycle_def)
  qed
qed

section \<open>The operations keep the invariant\<close>

lemma edges_addNode: "edges (snd (addNode l now r1 r2 s)) = edges s"
  by (simp add: addNode_def Let_def)

lemma node_ids_addNode: "node_ids s \<subseteq> node_ids (snd (addNode l now r1 r2 s))"
  by (auto simp: addNode_def Let_def node_ids_def)

lemma dag_inv_addNode:
  assumes "dag_inv s"
  shows "dag_inv (snd (addNode l now r1 r2 s))"
proof -
  have "no_dangling (snd (addNode l now r1 r2 s))"
    using assms node_ids_addNode[of s l now r1 r2]
    by (auto simp: dag_inv_def no_dangling_def edges_addNode)
  moreover have "edge_rel (snd (addNode l now r1 r2 s)) = edge_rel s"
    by (simp add: edge_rel_def edges_addNode)
  ultimately show ?thesis using assms by (simp add: dag_inv_def)
qed

lemma dag_inv_deleteNode:
  assumes "dag_inv s"
  shows "dag_inv (snd (deleteNode nodeId s))"
proof -
  have "no_dangling (snd (deleteNode nodeId s))"
    using assms by (auto simp: dag_inv_def no_dangling_def deleteNode_def node_ids_def)
  moreover have "edge_rel (snd (deleteNode nodeId s)) \<subseteq> edge_rel s"
    by (auto simp: edge_rel_def deleteNode_def)
  ultimately show ?thesis using assms by (auto simp: dag_inv_def intro: acyclic_subset)
qed

lemma dag_inv_deleteEdge:
  assumes "dag_inv s"
  shows "dag_inv (snd (deleteEdge f t s))"
proof -
  have "no_dangling (snd (deleteEdge f t s))"
    using assms by (auto simp: dag_inv_def no_dangling_def deleteEdge_def node_ids_def)
  moreover have "edge_rel (snd (deleteEdge f t s)) \<subseteq> edge_rel s"
    by (auto simp: edge_rel_def deleteEdge_def)
  ultimately show ?thesis using assms by (auto simp: dag_inv_def intro: acyclic_subset)
qed

lemma dag_inv_addEdge:
  assumes inv: "dag_inv s" and f: "f \<in> node_ids s" and t: "t \<in> node_ids s"
  shows "dag_inv (snd (addEdge f t s))"
proof (cases "fst (addEdge f t s) = Success")
  case False
  then have "snd (addEdge f t s) = s" by (auto simp: addEdge_def split: if_splits)
  with inv show ?thesis by simp
next
  case True
  then have nocyc: "\<not> wouldCreateCycle s f t"
    and st: "snd (addEdge f t s) = s\<lparr>edges := edges s @ [\<lparr>from' = f, to' = t\<rparr>]\<rparr>"
    by (auto simp: addEdge_def split: if_splits)
  from inv have acyc: "acyclic (edge_rel s)" and nd: "no_dangling s"
    by (simp_all add: dag_inv_def)
  from nocyc have "(t, f) \<notin> (edge_rel s)\<^sup>*"
    using wouldCreateCycle_iff[OF acyc nd f] by simp
  with acyc have "acyclic (insert (f, t) (edge_rel s))" by simp
  moreover have "edge_rel (snd (addEdge f t s)) = insert (f, t) (edge_rel s)"
    by (auto simp: st edge_rel_def)
  moreover have "no_dangling (snd (addEdge f t s))"
    using nd f t by (auto simp: st no_dangling_def node_ids_def)
  ultimately show ?thesis by (simp add: dag_inv_def)
qed

lemma dag_inv_perform:
  "dag_inv s \<Longrightarrow> well_addressed i s \<Longrightarrow> dag_inv (snd (perform i s))"
  by (cases i) (simp_all add: dag_inv_addNode dag_inv_deleteNode dag_inv_addEdge dag_inv_deleteEdge)

lemma run_in_trace: "run is s \<in> set (trace is s)"
  by (induction "is" arbitrary: s) simp_all

lemma dag_inv_trace:
  "dag_inv s \<Longrightarrow> all_well_addressed is s \<Longrightarrow> \<forall>s' \<in> set (trace is s). dag_inv s'"
proof (induction "is" arbitrary: s)
  case Nil
  then show ?case by simp
next
  case (Cons i "is")
  from Cons.prems have "dag_inv (snd (perform i s))" by (simp add: dag_inv_perform)
  moreover from Cons.prems have "all_well_addressed is (snd (perform i s))" by simp
  ultimately have "\<forall>s' \<in> set (trace is (snd (perform i s))). dag_inv s'" by (rule Cons.IH)
  with Cons.prems(1) show ?case by simp
qed

lemma dag_inv_initialState: "dag_inv initialState"
  by (simp add: dag_inv_def initialState_def no_dangling_def edge_rel_def acyclic_def)

section \<open>Evaluation helpers\<close>

lemma decimal_1: "decimal 1761400000000 = ''1761400000000''" by (simp add: decimal.simps)
lemma decimal_2: "decimal 1761400000001 = ''1761400000001''" by (simp add: decimal.simps)

section \<open>Acyclicity and dangling edges\<close>

text \<open>
  Claim C1, as amended. Start from the empty graph and perform any sequence of \<^verbatim>\<open>addNode\<close>,
  \<^verbatim>\<open>deleteNode\<close>, \<^verbatim>\<open>deleteEdge\<close> and \<^verbatim>\<open>addEdge\<close> intents in which every \<^verbatim>\<open>addEdge\<close> names two
  nodes that exist when it is called. Then the edges of every state passed through, the
  first and the last included, contain no directed cycle.
\<close>

theorem C1_acyclic_at_every_point:
  assumes "all_well_addressed is initialState"
  shows "\<forall>s \<in> set (trace is initialState). acyclic (edge_rel s)"
  using dag_inv_trace[OF dag_inv_initialState assms] by (simp add: dag_inv_def)

text \<open>
  Without the condition on the endpoints the claim fails: \<^verbatim>\<open>addEdge\<close> does not look the
  endpoints up among the nodes, and the adjacency list drops every edge whose source is
  not a node. Two edges between ids that do not exist yet are both accepted; two nodes
  created at those two milliseconds then carry exactly these ids, and the graph has a
  cycle between two existing nodes.
\<close>

theorem C1_counterexample:
  "outcomes [AddEdge ''node-1761400000000'' ''node-1761400000001'',
             AddEdge ''node-1761400000001'' ''node-1761400000000'',
             AddNode ''a'' 1761400000000 0 0, AddNode ''b'' 1761400000001 0 0] initialState
     = [Success, Success, Success, Success]
   \<and> no_dangling (run [AddEdge ''node-1761400000000'' ''node-1761400000001'',
             AddEdge ''node-1761400000001'' ''node-1761400000000'',
             AddNode ''a'' 1761400000000 0 0, AddNode ''b'' 1761400000001 0 0] initialState)
   \<and> \<not> acyclic (edge_rel (run [AddEdge ''node-1761400000000'' ''node-1761400000001'',
             AddEdge ''node-1761400000001'' ''node-1761400000000'',
             AddNode ''a'' 1761400000000 0 0, AddNode ''b'' 1761400000001 0 0] initialState))"
proof -
  let ?is = "[AddEdge ''node-1761400000000'' ''node-1761400000001'',
             AddEdge ''node-1761400000001'' ''node-1761400000000'',
             AddNode ''a'' 1761400000000 0 0, AddNode ''b'' 1761400000001 0 0]"
  have st: "run ?is initialState =
      \<lparr>nodes = [\<lparr>id' = ''node-1761400000000'', label = ''a'', x_coord = 100, y_coord = 100\<rparr>,
                \<lparr>id' = ''node-1761400000001'', label = ''b'', x_coord = 100, y_coord = 100\<rparr>],
       edges = [\<lparr>from' = ''node-1761400000000'', to' = ''node-1761400000001''\<rparr>,
                \<lparr>from' = ''node-1761400000001'', to' = ''node-1761400000000''\<rparr>]\<rparr>"
    by (simp add: initialState_def addEdge_def wouldCreateCycle_def adjacencyList_def push_def
        neighbors_def addNode_def trim_def isWhiteSpace_def decimal_1 decimal_2)
  have out: "outcomes ?is initialState = [Success, Success, Success, Success]"
    by (simp add: initialState_def addEdge_def wouldCreateCycle_def adjacencyList_def push_def
        neighbors_def addNode_def trim_def isWhiteSpace_def decimal_1 decimal_2)
  have "(''node-1761400000000'', ''node-1761400000000'') \<in> (edge_rel (run ?is initialState))\<^sup>+"
    unfolding st edge_rel_def by (rule trancl_trans[of _ "''node-1761400000001''"]) auto
  then have "\<not> acyclic (edge_rel (run ?is initialState))"
    by (auto simp: acyclic_def)
  moreover have "no_dangling (run ?is initialState)"
    unfolding st by (simp add: no_dangling_def node_ids_def)
  ultimately show ?thesis using out by simp
qed

theorem C1_acyclic_at_every_point_witness:
  "all_well_addressed [AddNode ''a'' 1761400000000 0 0, AddNode ''b'' 1761400000001 0 0,
       AddEdge ''node-1761400000000'' ''node-1761400000001'',
       AddEdge ''node-1761400000001'' ''node-1761400000000''] initialState
   \<and> acyclic (edge_rel (run [AddNode ''a'' 1761400000000 0 0, AddNode ''b'' 1761400000001 0 0,
       AddEdge ''node-1761400000000'' ''node-1761400000001'',
       AddEdge ''node-1761400000001'' ''node-1761400000000''] initialState))"
proof -
  have h: "all_well_addressed [AddNode ''a'' 1761400000000 0 0, AddNode ''b'' 1761400000001 0 0,
       AddEdge ''node-1761400000000'' ''node-1761400000001'',
       AddEdge ''node-1761400000001'' ''node-1761400000000''] initialState"
    by (simp add: initialState_def addEdge_def wouldCreateCycle_def adjacencyList_def push_def
        neighbors_def addNode_def trim_def isWhiteSpace_def decimal_1 decimal_2 node_ids_def)
  from C1_acyclic_at_every_point[OF h] h show ?thesis using run_in_trace by blast
qed

text \<open>
  Claim C4, as amended. Under the same condition on the endpoints of \<^verbatim>\<open>addEdge\<close>, both
  endpoints of every edge name an existing node, in every state passed through.
\<close>

theorem C4_no_dangling_edges:
  assumes "all_well_addressed is initialState"
  shows "\<forall>s \<in> set (trace is initialState). no_dangling s"
  using dag_inv_trace[OF dag_inv_initialState assms] by (simp add: dag_inv_def)

theorem C4_no_dangling_edges_witness:
  "all_well_addressed [AddNode ''a'' 1761400000000 0 0, AddNode ''b'' 1761400000001 0 0,
       AddEdge ''node-1761400000000'' ''node-1761400000001'',
       DeleteNode ''node-1761400000000''] initialState
   \<and> no_dangling (run [AddNode ''a'' 1761400000000 0 0, AddNode ''b'' 1761400000001 0 0,
       AddEdge ''node-1761400000000'' ''node-1761400000001'',
       DeleteNode ''node-1761400000000''] initialState)"
proof -
  have h: "all_well_addressed [AddNode ''a'' 1761400000000 0 0, AddNode ''b'' 1761400000001 0 0,
       AddEdge ''node-1761400000000'' ''node-1761400000001'',
       DeleteNode ''node-1761400000000''] initialState"
    by (simp add: initialState_def addNode_def trim_def isWhiteSpace_def decimal_1 decimal_2
        node_ids_def)
  from C4_no_dangling_edges[OF h] h show ?thesis using run_in_trace by blast
qed

text \<open>
  \<^verbatim>\<open>addEdge\<close> itself accepts an edge between two ids that name no node.
\<close>

theorem C4_counterexample:
  "fst (addEdge ''ghost-1'' ''ghost-2'' initialState) = Success
   \<and> \<not> no_dangling (snd (addEdge ''ghost-1'' ''ghost-2'' initialState))"
  by (simp add: initialState_def addEdge_def wouldCreateCycle_def adjacencyList_def push_def
      neighbors_def no_dangling_def node_ids_def)

section \<open>The example graph\<close>

lemma node_ids_chainABC: "node_ids chainABC = {''A'', ''B'', ''C''}"
  by (auto simp: node_ids_def chainABC_def nodeA_def nodeB_def nodeC_def)

lemma edge_rel_chainABC: "edge_rel chainABC = {(''A'', ''B''), (''B'', ''C'')}"
  by (auto simp: edge_rel_def chainABC_def)

lemma dag_inv_chainABC: "dag_inv chainABC"
proof -
  have "no_dangling chainABC"
    by (simp add: no_dangling_def node_ids_chainABC) (simp add: chainABC_def)
  moreover have "acyclic ({} :: (string \<times> string) set)"
    by (simp add: acyclic_def)
  then have "acyclic (edge_rel chainABC)"
    by (simp add: edge_rel_chainABC rtrancl_insert)
  ultimately show ?thesis by (simp add: dag_inv_def)
qed

section \<open>The cycle check and reachability\<close>

text \<open>
  Claim C5. In a state whose edges are acyclic and connect existing nodes, and for two
  existing nodes \<open>u\<close> and \<open>v\<close>, \<^verbatim>\<open>wouldCreateCycle(u, v)\<close> returns true exactly when \<open>v\<close> already
  reaches \<open>u\<close> along the current edges, or \<open>u\<close> and \<open>v\<close> are the same node.
\<close>

theorem C5_cycle_check_decides_reachability:
  assumes "acyclic (edge_rel s)" and "no_dangling s"
    and "u \<in> node_ids s" and "v \<in> node_ids s"
  shows "wouldCreateCycle s u v \<longleftrightarrow> (v, u) \<in> (edge_rel s)\<^sup>+ \<or> u = v"
  using wouldCreateCycle_iff[OF assms(1,2,3), of v] by (auto simp: rtrancl_eq_or_trancl)

theorem C5_cycle_check_decides_reachability_witness:
  "acyclic (edge_rel chainABC) \<and> no_dangling chainABC
   \<and> ''C'' \<in> node_ids chainABC \<and> ''A'' \<in> node_ids chainABC
   \<and> wouldCreateCycle chainABC ''C'' ''A''
   \<and> (''A'', ''C'') \<in> (edge_rel chainABC)\<^sup>+"
proof -
  have a: "acyclic (edge_rel chainABC)" and n: "no_dangling chainABC"
    using dag_inv_chainABC by (simp_all add: dag_inv_def)
  have c: "''C'' \<in> node_ids chainABC" and d: "''A'' \<in> node_ids chainABC"
    by (simp_all add: node_ids_chainABC)
  have r: "(''A'', ''C'') \<in> (edge_rel chainABC)\<^sup>+"
    unfolding edge_rel_chainABC by (rule trancl_trans[of _ "''B''"]) auto
  with C5_cycle_check_decides_reachability[OF a n c d] have "wouldCreateCycle chainABC ''C'' ''A''"
    by simp
  with a n c d r show ?thesis by simp
qed


section \<open>The checks of addEdge\<close>

lemma addEdge_cases:
  "addEdge f t s =
     (if \<exists>e \<in> set (edges s). from' e = f \<and> to' e = t then (Error DuplicateEdge, s)
      else if wouldCreateCycle s f t then (Error WouldCreateCycle, s)
      else (Success, s\<lparr>edges := edges s @ [\<lparr>from' = f, to' = t\<rparr>]\<rparr>))"
  by (simp add: addEdge_def list_ex_iff)

text \<open>
  Claim C3, as amended. \<^verbatim>\<open>addEdge(from, to)\<close> makes two checks in this order and reports the
  first that fails: \<open>DuplicateEdge\<close> when an edge with the same endpoints is stored, then
  \<open>WouldCreateCycle\<close> when \<^verbatim>\<open>wouldCreateCycle(from, to)\<close> holds, which it does whenever both
  endpoints are equal. The edge is appended only when both checks pass. It never reports
  \<open>UnknownNode\<close> or \<open>SelfLoop\<close>; \<^verbatim>\<open>addEdge(x, x)\<close> always fails, with \<open>DuplicateEdge\<close> when the
  edge from \<open>x\<close> to \<open>x\<close> is stored and with \<open>WouldCreateCycle\<close> otherwise.
\<close>

theorem C3_addEdge_validation_order:
  "((\<exists>e \<in> set (edges s). from' e = f \<and> to' e = t) \<longrightarrow>
      addEdge f t s = (Error DuplicateEdge, s))
   \<and> (\<not> (\<exists>e \<in> set (edges s). from' e = f \<and> to' e = t) \<and> wouldCreateCycle s f t \<longrightarrow>
      addEdge f t s = (Error WouldCreateCycle, s))
   \<and> (\<not> (\<exists>e \<in> set (edges s). from' e = f \<and> to' e = t) \<and> \<not> wouldCreateCycle s f t \<longrightarrow>
      addEdge f t s = (Success, s\<lparr>edges := edges s @ [\<lparr>from' = f, to' = t\<rparr>]\<rparr>))
   \<and> fst (addEdge f t s) \<noteq> Error UnknownNode
   \<and> fst (addEdge f t s) \<noteq> Error SelfLoop
   \<and> addEdge f f s =
       (if \<exists>e \<in> set (edges s). from' e = f \<and> to' e = f then (Error DuplicateEdge, s)
        else (Error WouldCreateCycle, s))"
  by (auto simp: addEdge_cases wouldCreateCycle_def)

theorem C3_addEdge_validation_order_witness:
  "\<not> (\<exists>e \<in> set (edges chainABC). from' e = ''C'' \<and> to' e = ''A'')
   \<and> wouldCreateCycle chainABC ''C'' ''A''
   \<and> addEdge ''C'' ''A'' chainABC = (Error WouldCreateCycle, chainABC)
   \<and> (\<exists>e \<in> set (edges chainABC). from' e = ''A'' \<and> to' e = ''B'')
   \<and> addEdge ''A'' ''B'' chainABC = (Error DuplicateEdge, chainABC)
   \<and> \<not> (\<exists>e \<in> set (edges chainABC). from' e = ''A'' \<and> to' e = ''C'')
   \<and> \<not> wouldCreateCycle chainABC ''A'' ''C''
   \<and> addEdge ''A'' ''C'' chainABC
       = (Success, chainABC\<lparr>edges := edges chainABC @ [\<lparr>from' = ''A'', to' = ''C''\<rparr>]\<rparr>)"
proof -
  have d1: "\<not> (\<exists>e \<in> set (edges chainABC). from' e = ''C'' \<and> to' e = ''A'')"
    and d2: "\<exists>e \<in> set (edges chainABC). from' e = ''A'' \<and> to' e = ''B''"
    and d3: "\<not> (\<exists>e \<in> set (edges chainABC). from' e = ''A'' \<and> to' e = ''C'')"
    by (simp_all add: chainABC_def)
  have w1: "wouldCreateCycle chainABC ''C'' ''A''"
    and w3: "\<not> wouldCreateCycle chainABC ''A'' ''C''"
    by (simp_all add: wouldCreateCycle_def adjacencyList_def push_def neighbors_def
        chainABC_def nodeA_def nodeB_def nodeC_def)
  from C3_addEdge_validation_order[of chainABC "''C''" "''A''"] d1 w1
  have "addEdge ''C'' ''A'' chainABC = (Error WouldCreateCycle, chainABC)" by blast
  moreover from C3_addEdge_validation_order[of chainABC "''A''" "''B''"] d2
  have "addEdge ''A'' ''B'' chainABC = (Error DuplicateEdge, chainABC)" by blast
  moreover from C3_addEdge_validation_order[of chainABC "''A''" "''C''"] d3 w3
  have "addEdge ''A'' ''C'' chainABC
       = (Success, chainABC\<lparr>edges := edges chainABC @ [\<lparr>from' = ''A'', to' = ''C''\<rparr>]\<rparr>)" by blast
  ultimately show ?thesis using d1 d2 d3 w1 w3 by blast
qed

text \<open>
  On the example graph, \<^verbatim>\<open>addEdge("A", "A")\<close> is rejected as a cycle and not as a self-loop,
  and an unknown endpoint is not reported: the edge from A to the unknown Z is stored.
\<close>

theorem C3_counterexample:
  "''A'' \<in> node_ids chainABC
   \<and> addEdge ''A'' ''A'' chainABC = (Error WouldCreateCycle, chainABC)
   \<and> fst (addEdge ''A'' ''A'' chainABC) \<noteq> Error SelfLoop
   \<and> ''Z'' \<notin> node_ids chainABC
   \<and> fst (addEdge ''Z'' ''Z'' chainABC) \<noteq> Error UnknownNode
   \<and> fst (addEdge ''A'' ''Z'' chainABC) = Success"
  by (simp add: node_ids_chainABC addEdge_def wouldCreateCycle_def)
     (simp add: adjacencyList_def push_def neighbors_def chainABC_def nodeA_def nodeB_def nodeC_def)

section \<open>Failed operations\<close>

lemma addEdge_twice:
  "addEdge a b (snd (addEdge a b s)) =
     (if fst (addEdge a b s) = Error WouldCreateCycle
      then (Error WouldCreateCycle, snd (addEdge a b s))
      else (Error DuplicateEdge, snd (addEdge a b s)))"
proof (cases "\<exists>e \<in> set (edges s). from' e = a \<and> to' e = b")
  case True
  then have "addEdge a b s = (Error DuplicateEdge, s)" by (simp add: addEdge_cases)
  then show ?thesis by simp
next
  case dup: False
  show ?thesis
  proof (cases "wouldCreateCycle s a b")
    case True
    with dup have "addEdge a b s = (Error WouldCreateCycle, s)" by (simp add: addEdge_cases)
    then show ?thesis by simp
  next
    case False
    with dup have first: "addEdge a b s = (Success, s\<lparr>edges := edges s @ [\<lparr>from' = a, to' = b\<rparr>]\<rparr>)"
      by (simp add: addEdge_cases)
    have "addEdge a b (s\<lparr>edges := edges s @ [\<lparr>from' = a, to' = b\<rparr>]\<rparr>)
        = (Error DuplicateEdge, s\<lparr>edges := edges s @ [\<lparr>from' = a, to' = b\<rparr>]\<rparr>)"
      by (simp add: addEdge_cases)
    with first show ?thesis by simp
  qed
qed

text \<open>
  Claim C6. Whenever one of the four operations reports an error, whichever it is, the
  state after the call is the state before it. For the example of the claim, call
  \<^verbatim>\<open>addEdge(a, b)\<close> twice in a row: the second call always fails and leaves the state and
  the number of edges as the first call left them, and it reports \<open>DuplicateEdge\<close> when the
  first call has stored the edge (or has found it stored). Only where the first call was
  itself rejected as a cycle, so that the edge never was stored, is the second call
  rejected as a cycle again.
\<close>

theorem C6_failed_operation_keeps_state:
  "(fst (perform i s) = Error e \<longrightarrow> snd (perform i s) = s)
   \<and> (fst (addEdge a b s) \<noteq> Error WouldCreateCycle \<longrightarrow>
        addEdge a b (snd (addEdge a b s)) = (Error DuplicateEdge, snd (addEdge a b s)))
   \<and> (fst (addEdge a b s) = Error WouldCreateCycle \<longrightarrow>
        addEdge a b (snd (addEdge a b s)) = (Error WouldCreateCycle, snd (addEdge a b s)))
   \<and> length (edges (snd (addEdge a b (snd (addEdge a b s))))) = length (edges (snd (addEdge a b s)))"
proof (intro conjI impI)
  assume "fst (perform i s) = Error e"
  then show "snd (perform i s) = s"
    by (cases i) (auto simp: addNode_def Let_def deleteNode_def addEdge_def deleteEdge_def
        split: if_splits)
next
  assume "fst (addEdge a b s) \<noteq> Error WouldCreateCycle"
  then show "addEdge a b (snd (addEdge a b s)) = (Error DuplicateEdge, snd (addEdge a b s))"
    by (simp add: addEdge_twice)
next
  assume "fst (addEdge a b s) = Error WouldCreateCycle"
  then show "addEdge a b (snd (addEdge a b s)) = (Error WouldCreateCycle, snd (addEdge a b s))"
    by (simp add: addEdge_twice)
next
  show "length (edges (snd (addEdge a b (snd (addEdge a b s))))) = length (edges (snd (addEdge a b s)))"
    by (simp add: addEdge_twice)
qed

theorem C6_failed_operation_keeps_state_witness:
  "fst (perform (AddEdge ''C'' ''A'') chainABC) = Error WouldCreateCycle
   \<and> snd (perform (AddEdge ''C'' ''A'') chainABC) = chainABC
   \<and> fst (perform (AddNode ''   '' 1761400000000 0 0) chainABC) = Error EmptyLabel
   \<and> snd (perform (AddNode ''   '' 1761400000000 0 0) chainABC) = chainABC
   \<and> fst (addEdge ''A'' ''C'' chainABC) = Success
   \<and> addEdge ''A'' ''C'' (snd (addEdge ''A'' ''C'' chainABC))
        = (Error DuplicateEdge, snd (addEdge ''A'' ''C'' chainABC))"
proof -
  have f1: "fst (perform (AddEdge ''C'' ''A'') chainABC) = Error WouldCreateCycle"
    and f3: "fst (addEdge ''A'' ''C'' chainABC) = Success"
    by (simp_all add: addEdge_def wouldCreateCycle_def adjacencyList_def push_def neighbors_def
        chainABC_def nodeA_def nodeB_def nodeC_def)
  have f2: "fst (perform (AddNode ''   '' 1761400000000 0 0) chainABC) = Error EmptyLabel"
    by (simp add: addNode_def trim_def isWhiteSpace_def)
  from f3 have f4: "fst (addEdge ''A'' ''C'' chainABC) \<noteq> Error WouldCreateCycle" by simp
  from C6_failed_operation_keeps_state[of "AddEdge ''C'' ''A''" chainABC WouldCreateCycle "''A''" "''C''"]
    C6_failed_operation_keeps_state[of "AddNode ''   '' 1761400000000 0 0" chainABC EmptyLabel]
    f1 f2 f3 f4
  show ?thesis by blast
qed

section \<open>Deleting nodes and edges\<close>

text \<open>
  Claim C8. For an existing node id, \<^verbatim>\<open>deleteNode(id)\<close> returns one new state, in which no
  node has this id, at least one node fewer is stored, no edge starts or ends at the id,
  and all other nodes and edges are kept in their order. On the example graph, deleting
  B leaves the nodes A and C and no edge.
\<close>

theorem C8_deleteNode_cascades:
  assumes "nodeId \<in> node_ids s"
  shows "fst (deleteNode nodeId s) = Quiet
   \<and> nodeId \<notin> node_ids (snd (deleteNode nodeId s))
   \<and> length (nodes (snd (deleteNode nodeId s))) < length (nodes s)
   \<and> (\<forall>e \<in> set (edges (snd (deleteNode nodeId s))). from' e \<noteq> nodeId \<and> to' e \<noteq> nodeId)
   \<and> nodes (snd (deleteNode nodeId s)) = filter (\<lambda>n. id' n \<noteq> nodeId) (nodes s)
   \<and> edges (snd (deleteNode nodeId s))
        = filter (\<lambda>e. from' e \<noteq> nodeId \<and> to' e \<noteq> nodeId) (edges s)"
proof -
  from assms obtain n where "n \<in> set (nodes s)" and "\<not> id' n \<noteq> nodeId"
    by (auto simp: node_ids_def)
  then have "length (filter (\<lambda>n. id' n \<noteq> nodeId) (nodes s)) < length (nodes s)"
    by (rule length_filter_less)
  then show ?thesis by (auto simp: deleteNode_def node_ids_def)
qed

theorem C8_deleteNode_cascades_witness:
  "''B'' \<in> node_ids chainABC
   \<and> snd (deleteNode ''B'' chainABC) = \<lparr>nodes = [nodeA, nodeC], edges = []\<rparr>
   \<and> ''B'' \<notin> node_ids (snd (deleteNode ''B'' chainABC))
   \<and> length (nodes (snd (deleteNode ''B'' chainABC))) < length (nodes chainABC)"
proof -
  have h: "''B'' \<in> node_ids chainABC" by (simp add: node_ids_chainABC)
  have "snd (deleteNode ''B'' chainABC) = \<lparr>nodes = [nodeA, nodeC], edges = []\<rparr>"
    by (simp add: deleteNode_def chainABC_def nodeA_def nodeB_def nodeC_def)
  with C8_deleteNode_cascades[OF h] h show ?thesis by blast
qed

text \<open>
  Claim C9, as amended. For an id that no node has, \<^verbatim>\<open>deleteNode(id)\<close> reports nothing and
  succeeds: the node list is unchanged, and so is the whole state when no edge is
  dangling.
\<close>

theorem C9_deleteNode_absent_id:
  assumes "nodeId \<notin> node_ids s"
  shows "fst (deleteNode nodeId s) = Quiet
   \<and> nodes (snd (deleteNode nodeId s)) = nodes s
   \<and> (no_dangling s \<longrightarrow> snd (deleteNode nodeId s) = s)"
proof -
  from assms have n: "filter (\<lambda>n. id' n \<noteq> nodeId) (nodes s) = nodes s"
    by (auto simp: node_ids_def intro: filter_True)
  have "filter (\<lambda>e. from' e \<noteq> nodeId \<and> to' e \<noteq> nodeId) (edges s) = edges s" if "no_dangling s"
    using that assms by (intro filter_True) (auto simp: no_dangling_def)
  with n show ?thesis by (simp add: deleteNode_def)
qed

theorem C9_deleteNode_absent_id_witness:
  "''Z'' \<notin> node_ids chainABC \<and> no_dangling chainABC
   \<and> fst (deleteNode ''Z'' chainABC) = Quiet
   \<and> snd (deleteNode ''Z'' chainABC) = chainABC"
proof -
  have h: "''Z'' \<notin> node_ids chainABC" by (simp add: node_ids_chainABC)
  have n: "no_dangling chainABC" using dag_inv_chainABC by (simp add: dag_inv_def)
  from C9_deleteNode_absent_id[OF h] h n show ?thesis by blast
qed

text \<open>The source has no \<open>NotFound\<close>: deleting the unknown Z from the example graph is silent.\<close>

theorem C9_counterexample:
  "''Z'' \<notin> node_ids chainABC
   \<and> fst (deleteNode ''Z'' chainABC) \<noteq> Error NotFound
   \<and> deleteNode ''Z'' chainABC = (Quiet, chainABC)"
  by (simp add: node_ids_chainABC deleteNode_def)
     (simp add: chainABC_def nodeA_def nodeB_def nodeC_def)

text \<open>
  Claim C10. \<^verbatim>\<open>deleteEdge(from, to)\<close> reports no error, keeps the node list, removes every
  edge with these endpoints and keeps all other edges in their order; when no edge has
  these endpoints the state is unchanged.
\<close>

theorem C10_deleteEdge_frame:
  "fst (deleteEdge f t s) = Quiet
   \<and> nodes (snd (deleteEdge f t s)) = nodes s
   \<and> edges (snd (deleteEdge f t s)) = filter (\<lambda>e. \<not> (from' e = f \<and> to' e = t)) (edges s)
   \<and> (\<forall>e \<in> set (edges (snd (deleteEdge f t s))). \<not> (from' e = f \<and> to' e = t))
   \<and> ((\<forall>e \<in> set (edges s). \<not> (from' e = f \<and> to' e = t)) \<longrightarrow> snd (deleteEdge f t s) = s)"
proof -
  have "filter (\<lambda>e. \<not> (from' e = f \<and> to' e = t)) (edges s) = edges s"
    if "\<forall>e \<in> set (edges s). \<not> (from' e = f \<and> to' e = t)"
    using that by (intro filter_True) auto
  then show ?thesis by (auto simp: deleteEdge_def)
qed

theorem C10_deleteEdge_frame_witness:
  "deleteEdge ''A'' ''B'' chainABC
     = (Quiet, \<lparr>nodes = [nodeA, nodeB, nodeC], edges = [\<lparr>from' = ''B'', to' = ''C''\<rparr>]\<rparr>)
   \<and> \<not> (\<exists>e \<in> set (edges chainABC). from' e = ''C'' \<and> to' e = ''A'')
   \<and> deleteEdge ''C'' ''A'' chainABC = (Quiet, chainABC)"
proof -
  have h: "\<forall>e \<in> set (edges chainABC). \<not> (from' e = ''C'' \<and> to' e = ''A'')"
    by (simp add: chainABC_def)
  have "deleteEdge ''A'' ''B'' chainABC
     = (Quiet, \<lparr>nodes = [nodeA, nodeB, nodeC], edges = [\<lparr>from' = ''B'', to' = ''C''\<rparr>]\<rparr>)"
    by (simp add: deleteEdge_def chainABC_def)
  moreover from C10_deleteEdge_frame[of "''C''" "''A''" chainABC] h
  have "deleteEdge ''C'' ''A'' chainABC = (Quiet, chainABC)"
    by (metis prod.collapse)
  ultimately show ?thesis using h by blast
qed

section \<open>Import\<close>

text \<open>
  Claim C2, as amended. \<^verbatim>\<open>importGraph\<close> validates nothing: a document that parses becomes
  the state as it is. Only a text that does not parse is rejected, as \<open>Malformed\<close>, and
  then, as when no file was chosen, the state is kept.
\<close>

theorem C2_import_adopts_what_parses:
  "importGraph (Parsed imported) s = (Success, imported)
   \<and> importGraph Unparsable s = (Error Malformed, s)
   \<and> importGraph NoFile s = (Quiet, s)
   \<and> (fst (importGraph chosen s) = Error e \<longrightarrow>
        chosen = Unparsable \<and> e = Malformed \<and> snd (importGraph chosen s) = s)"
  by (cases chosen) (simp_all add: importGraph_def)

theorem C2_import_adopts_what_parses_witness:
  "fst (importGraph Unparsable chainABC) = Error Malformed
   \<and> snd (importGraph Unparsable chainABC) = chainABC
   \<and> importGraph (Parsed initialState) chainABC = (Success, initialState)"
  using C2_import_adopts_what_parses[of initialState chainABC Unparsable Malformed]
  by simp

text \<open>
  A document whose only edge points to a node that is not in it is imported with
  success and replaces the example graph.
\<close>

theorem C2_counterexample:
  "\<not> no_dangling \<lparr>nodes = [nodeA], edges = [\<lparr>from' = ''A'', to' = ''ghost''\<rparr>]\<rparr>
   \<and> importGraph (Parsed \<lparr>nodes = [nodeA], edges = [\<lparr>from' = ''A'', to' = ''ghost''\<rparr>]\<rparr>) chainABC
       = (Success, \<lparr>nodes = [nodeA], edges = [\<lparr>from' = ''A'', to' = ''ghost''\<rparr>]\<rparr>)
   \<and> snd (importGraph (Parsed \<lparr>nodes = [nodeA], edges = [\<lparr>from' = ''A'', to' = ''ghost''\<rparr>]\<rparr>) chainABC)
       \<noteq> chainABC"
  by (simp add: importGraph_def no_dangling_def node_ids_def nodeA_def chainABC_def)

end
